theory Spec2Isabelle
  imports Main "HOL-Library.AList"
begin

section \<open>Strings and dictionaries of the Python sources\<close>

text \<open>
  A Python \<open>str\<close> is a sequence of Unicode code points, so it is modelled as a list of
  natural numbers; \<open>str\<close> turns an ASCII literal into that form. A Python \<open>dict\<close> keeps
  its keys in insertion order and an assignment to an existing key keeps the key's place:
  it is an association list updated with \<open>AList.update\<close>.
\<close>

type_synonym pystr = "nat list"

definition str :: "string \<Rightarrow> pystr" where
  "str s = map of_char s"

text \<open>\<open>c.isspace()\<close>: the code points \<open>str.strip()\<close> removes.\<close>

definition isspace :: "nat \<Rightarrow> bool" where
  "isspace c = ((9 \<le> c \<and> c \<le> 13) \<or> (28 \<le> c \<and> c \<le> 32) \<or> c = 133 \<or> c = 160 \<or> c = 5760
     \<or> (8192 \<le> c \<and> c \<le> 8202) \<or> c = 8232 \<or> c = 8233 \<or> c = 8239 \<or> c = 8287 \<or> c = 12288)"

definition strip :: "pystr \<Rightarrow> pystr" where
  "strip s = rev (dropWhile isspace (rev (dropWhile isspace s)))"

definition startswith :: "pystr \<Rightarrow> pystr \<Rightarrow> bool" where
  "startswith s p = (take (length p) s = p)"

text \<open>\<open>content.split('\n')\<close>: never empty, one more piece than there are newlines.\<close>

fun split_lines :: "pystr \<Rightarrow> pystr list" where
  "split_lines [] = [[]]"
| "split_lines (c # cs) =
     (if c = 10 then [] # split_lines cs
      else (case split_lines cs of [] \<Rightarrow> [[c]] | w # ws \<Rightarrow> (c # w) # ws))"

text \<open>\<open>str(n)\<close> of a non-negative integer, as the f-string of the channel key formats it.\<close>

fun str_of_nat :: "nat \<Rightarrow> pystr" where
  "str_of_nat n = (if n < 10 then [48 + n] else str_of_nat (n div 10) @ [48 + n mod 10])"

declare str_of_nat.simps [simp del]

type_synonym attrs = "(pystr \<times> pystr) list"

section \<open>parse.py\<close>

subsection \<open>extract\_channel\_name\<close>

text \<open>
  \<open>re.search(r',([^,]+)$', extinf_line)\<close> tries the start positions from the left. At a
  comma it matches when the rest of the line is not empty and holds no comma (\<open>[^,]+\<close>
  is greedy and \<open>$\<close> accepts the end of the string); group 1 is that rest.
\<close>

fun re_search_name :: "pystr \<Rightarrow> pystr option" where
  "re_search_name [] = None"
| "re_search_name (c # cs) =
     (if c = 44 \<and> cs \<noteq> [] \<and> 44 \<notin> set cs then Some cs else re_search_name cs)"

definition unknown_channel :: pystr where
  "unknown_channel = [26410, 30693, 39057, 36947]"

definition extract_channel_name :: "pystr \<Rightarrow> pystr" where
  "extract_channel_name extinf_line =
     (case re_search_name extinf_line of
        Some g \<Rightarrow> strip g
      | None \<Rightarrow> unknown_channel)"

subsection \<open>extract\_attributes\<close>

text \<open>
  \<open>re.search(key + '="([^"]*)"', extinf_line)\<close>: at a start position the literal
  \<open>key="\<close> must follow, then the characters up to the next double quote are group 1;
  without a closing quote the position fails and the search moves on.
\<close>

definition match_attr_here :: "pystr \<Rightarrow> pystr \<Rightarrow> pystr option" where
  "match_attr_here key s =
     (let lit = key @ [61, 34]; rest = drop (length lit) s
      in if startswith s lit \<and> 34 \<in> set rest then Some (takeWhile (\<lambda>c. c \<noteq> 34) rest) else None)"

fun re_search_attr :: "pystr \<Rightarrow> pystr \<Rightarrow> pystr option" where
  "re_search_attr key [] = None"
| "re_search_attr key (c # cs) =
     (case match_attr_here key (c # cs) of
        Some v \<Rightarrow> Some v
      | None \<Rightarrow> re_search_attr key cs)"

definition patterns :: "pystr list" where
  "patterns = [str ''tvg-id'', str ''tvg-name'', str ''tvg-logo'', str ''group-title'']"

definition extract_attributes :: "pystr \<Rightarrow> attrs" where
  "extract_attributes extinf_line =
     fold (\<lambda>key attributes.
             case re_search_attr key extinf_line of
               Some v \<Rightarrow> AList.update key v attributes
             | None \<Rightarrow> attributes)
          patterns []"


subsection \<open>parse\_m3u\_to\_json\<close>

text \<open>
  An entry of \<open>channels.json\<close>. The parser writes all four fields; the later stages read
  the file back with \<open>dict.get\<close>, so a field may be missing there (\<open>None\<close>).
\<close>

record channel_info =
  ci_source_url :: "pystr option"
  ci_channel_name :: "pystr option"
  ci_stream_url :: "pystr option"
  ci_attributes :: "attrs option"

text \<open>
  The loop variables of \<open>parse_m3u_to_json\<close>: the dictionary \<open>channels\<close>, the pending
  \<open>current_channel_info\<close> (its \<open>name\<close> and \<open>attributes\<close>) and \<open>channel_index\<close>.
\<close>

record parse_state =
  channels :: "(pystr \<times> channel_info) list"
  current_channel_info :: "(pystr \<times> attrs) option"
  channel_index :: nat

text \<open>The channel key \<open>f"{m3u_url}_{channel_index}"\<close>.\<close>

definition channel_key :: "pystr \<Rightarrow> nat \<Rightarrow> pystr" where
  "channel_key m3u_url i = m3u_url @ [95] @ str_of_nat i"

definition parse_line :: "pystr \<Rightarrow> parse_state \<Rightarrow> pystr \<Rightarrow> parse_state" where
  "parse_line m3u_url st raw =
     (let line = strip raw in
      if line = [] then st
      else if startswith line (str ''#EXTINF'') then
        st\<lparr>current_channel_info := Some (extract_channel_name line, extract_attributes line)\<rparr>
      else if startswith line (str ''http'') then
        (case current_channel_info st of
           None \<Rightarrow> st
         | Some (name, attributes) \<Rightarrow>
             st\<lparr>channels :=
                  AList.update (channel_key m3u_url (channel_index st))
                    \<lparr>ci_source_url = Some m3u_url, ci_channel_name = Some name,
                     ci_stream_url = Some line, ci_attributes = Some attributes\<rparr>
                    (channels st),
                channel_index := channel_index st + 1,
                current_channel_info := None\<rparr>)
      else st)"

definition parse_init :: parse_state where
  "parse_init = \<lparr>channels = [], current_channel_info = None, channel_index = 0\<rparr>"

definition parse_lines :: "pystr \<Rightarrow> pystr list \<Rightarrow> parse_state" where
  "parse_lines m3u_url lines = foldl (parse_line m3u_url) parse_init lines"

datatype parse_error = InvalidM3U

text \<open>
  \<open>parse_m3u_to_json\<close> from the downloaded text to the dictionary \<open>channels\<close> it builds
  (the download before and the merge into the output file after are not part of the model).
\<close>

definition parse_m3u :: "pystr \<Rightarrow> pystr \<Rightarrow> parse_error + (pystr \<times> channel_info) list" where
  "parse_m3u m3u_url content =
     (case split_lines content of
        [] \<Rightarrow> Inl InvalidM3U
      | first # rest \<Rightarrow>
          if \<not> startswith (strip first) (str ''#EXTM3U'') then Inl InvalidM3U
          else Inr (channels (parse_lines m3u_url (first # rest))))"



section \<open>arrange\_channel.py\<close>

text \<open>
  A record of a \<open>childlist\<close> (\<open>source_url\<close>, \<open>stream_url\<close>, \<open>attributes\<close>) and a channel
  group (the same three fields for the primary, the name and the childlist). A missing
  \<open>attributes\<close> is read as \<open>{}\<close> everywhere (\<open>get('attributes', {})\<close>), so the field
  holds the map itself; a missing \<open>source_url\<close> or \<open>stream_url\<close> is \<open>None\<close>. The
  re-check reads the groups from the file \<open>arrange_channels\<close> writes, where the name and
  the childlist are always present (a missing childlist would be read as \<open>[]\<close>).
\<close>

record entry =
  e_source_url :: "pystr option"
  e_stream_url :: "pystr option"
  e_attributes :: attrs

record channel_group =
  source_url :: "pystr option"
  channel_name :: pystr
  stream_url :: "pystr option"
  attributes :: attrs
  childlist :: "entry list"

definition name_of :: "channel_info \<Rightarrow> pystr" where
  "name_of channel_info =
     (case ci_channel_name channel_info of None \<Rightarrow> str ''Unknown'' | Some n \<Rightarrow> n)"

definition to_entry :: "channel_info \<Rightarrow> entry" where
  "to_entry channel_info =
     \<lparr>e_source_url = ci_source_url channel_info,
      e_stream_url = ci_stream_url channel_info,
      e_attributes = (case ci_attributes channel_info of None \<Rightarrow> [] | Some a \<Rightarrow> a)\<rparr>"

text \<open>The grouping loop: one step for one item of \<open>channels.items()\<close>.\<close>

definition group_channel ::
  "(pystr \<times> channel_group) list \<Rightarrow> pystr \<times> channel_info \<Rightarrow> (pystr \<times> channel_group) list" where
  "group_channel grouped_channels item =
     (let channel_info = snd item; name = name_of channel_info; e = to_entry channel_info in
      case map_of grouped_channels name of
        None \<Rightarrow>
          AList.update name
            \<lparr>source_url = e_source_url e, channel_name = name, stream_url = e_stream_url e,
             attributes = e_attributes e, childlist = []\<rparr>
            grouped_channels
      | Some g \<Rightarrow>
          AList.update name (g\<lparr>childlist := childlist g @ [e]\<rparr>) grouped_channels)"

text \<open>
  The priority pass reads the group itself and its childlist records through the same
  three keys; \<open>as_entry\<close> is the group seen as such a record, and \<open>all_entries\<close> is
  \<open>[channel_group] + channel_group["childlist"]\<close>.
\<close>

definition as_entry :: "channel_group \<Rightarrow> entry" where
  "as_entry g = \<lparr>e_source_url = source_url g, e_stream_url = stream_url g,
     e_attributes = attributes g\<rparr>"

definition all_entries :: "channel_group \<Rightarrow> entry list" where
  "all_entries g = as_entry g # childlist g"

text \<open>The four tests of the priority pass; 91 is the character \<open>[\<close>.\<close>

definition class1 :: "pystr \<Rightarrow> bool" where
  "class1 u = (startswith u (str ''https://'') \<and> 91 \<notin> set u)"

definition class2 :: "pystr \<Rightarrow> bool" where
  "class2 u = (startswith u (str ''http://'') \<and> 91 \<notin> set u)"

definition class3 :: "pystr \<Rightarrow> bool" where
  "class3 u = (startswith u (str ''https://'') \<and> 91 \<in> set u)"

definition class4 :: "pystr \<Rightarrow> bool" where
  "class4 u = (startswith u (str ''http://'') \<and> 91 \<in> set u)"

definition priority_classes :: "(pystr \<Rightarrow> bool) list" where
  "priority_classes = [class1, class2, class3, class4]"

datatype arrange_error = AttributeError

text \<open>
  One \<open>for entry in all_entries\<close> loop: the position and the record of the first entry
  whose \<open>stream_url\<close> passes the test. A \<open>stream_url\<close> that is \<open>None\<close> has no
  \<open>startswith\<close>: the loop raises when it reaches such an entry.
\<close>

fun scan :: "(pystr \<Rightarrow> bool) \<Rightarrow> nat \<Rightarrow> entry list \<Rightarrow> arrange_error + (nat \<times> entry) option" where
  "scan P i [] = Inr None"
| "scan P i (e # es) =
     (case e_stream_url e of
        None \<Rightarrow> Inl AttributeError
      | Some u \<Rightarrow> if P u then Inr (Some (i, e)) else scan P (Suc i) es)"

text \<open>The four \<open>if not best_entry\<close> blocks, one after the other.\<close>

fun select_best ::
  "(pystr \<Rightarrow> bool) list \<Rightarrow> entry list \<Rightarrow> arrange_error + (nat \<times> entry) option" where
  "select_best [] es = Inr None"
| "select_best (P # Ps) es =
     (case scan P 0 es of
        Inl err \<Rightarrow> Inl err
      | Inr (Some best) \<Rightarrow> Inr (Some best)
      | Inr None \<Rightarrow> select_best Ps es)"

definition best_entry :: "channel_group \<Rightarrow> arrange_error + (nat \<times> entry) option" where
  "best_entry g = select_best priority_classes (all_entries g)"

text \<open>
  The swap. \<open>best_entry != channel_group\<close> compares dictionaries: a childlist record has
  three keys and the group five, so the two differ exactly when the best entry is not the
  group itself, that is when its position in \<open>all_entries\<close> is not 0.
\<close>

definition promote :: "channel_group \<Rightarrow> arrange_error + channel_group" where
  "promote g =
     (case best_entry g of
        Inl err \<Rightarrow> Inl err
      | Inr None \<Rightarrow> Inr g
      | Inr (Some (i, best)) \<Rightarrow>
          if i = 0 then Inr g
          else Inr (g\<lparr>source_url := e_source_url best,
                      stream_url := e_stream_url best,
                      attributes := e_attributes best,
                      childlist := filter (\<lambda>entry. e_stream_url entry \<noteq> e_stream_url best)
                                     (childlist g @ [as_entry g])\<rparr>))"

fun promote_all ::
  "(pystr \<times> channel_group) list \<Rightarrow> arrange_error + (pystr \<times> channel_group) list" where
  "promote_all [] = Inr []"
| "promote_all ((name, g) # gs) =
     (case promote g of
        Inl err \<Rightarrow> Inl err
      | Inr g' \<Rightarrow>
          (case promote_all gs of
             Inl err \<Rightarrow> Inl err
           | Inr gs' \<Rightarrow> Inr ((name, g') # gs')))"

text \<open>
  \<open>arrange_channels\<close> from the dictionary read from the input file to the dictionary
  written to the output file; an exception makes the function return an error and write
  nothing.
\<close>

definition arrange_channels ::
  "(pystr \<times> channel_info) list \<Rightarrow> arrange_error + (pystr \<times> channel_group) list" where
  "arrange_channels channels_in = promote_all (foldl group_channel [] channels_in)"

text \<open>
  The members of one name in the input, in first-seen order: what the grouping loop
  collects for that name.
\<close>

definition partition_of :: "pystr \<Rightarrow> (pystr \<times> channel_info) list \<Rightarrow> entry list" where
  "partition_of name channels_in =
     map (\<lambda>item. to_entry (snd item)) (filter (\<lambda>item. name_of (snd item) = name) channels_in)"

definition matches :: "(pystr \<Rightarrow> bool) \<Rightarrow> entry \<Rightarrow> bool" where
  "matches P e = (case e_stream_url e of None \<Rightarrow> False | Some u \<Rightarrow> P u)"

section \<open>re\_check.py\<close>

text \<open>
  \<open>requests.head\<close> is the network: it answers with a status code or raises, and may
  answer differently each time it is asked. Every member of every group is asked about at
  most once in a run, so the answers of one run are a function of the place of the call
  (the group's name and the member's position, 0 for the primary and \<open>i + 1\<close> for child
  \<open>i\<close>) and of the URL.
\<close>

datatype response = Status int | Timeout | RequestException | OtherException

type_synonym network = "pystr \<Rightarrow> nat \<Rightarrow> pystr \<Rightarrow> response"

definition main_playable :: "network \<Rightarrow> pystr \<Rightarrow> channel_group \<Rightarrow> bool" where
  "main_playable head name g =
     (case stream_url g of
        None \<Rightarrow> False
      | Some u \<Rightarrow> u \<noteq> [] \<and> head name 0 u = Status 200)"

definition child_playable :: "network \<Rightarrow> pystr \<Rightarrow> nat \<Rightarrow> entry \<Rightarrow> bool" where
  "child_playable head name i child =
     (case e_stream_url child of
        None \<Rightarrow> False
      | Some u \<Rightarrow> u \<noteq> [] \<and> head name (Suc i) u = Status 200)"

text \<open>The loop over \<open>enumerate(childlist)\<close> that fills \<open>playable_childlist\<close>.\<close>

fun check_childlist :: "network \<Rightarrow> pystr \<Rightarrow> nat \<Rightarrow> entry list \<Rightarrow> entry list" where
  "check_childlist head name i [] = []"
| "check_childlist head name i (child # rest) =
     (if child_playable head name i child
      then child # check_childlist head name (Suc i) rest
      else check_childlist head name (Suc i) rest)"

definition recheck_group :: "network \<Rightarrow> pystr \<Rightarrow> channel_group \<Rightarrow> channel_group option" where
  "recheck_group head name g =
     (let playable_childlist = check_childlist head name 0 (childlist g) in
      if main_playable head name g then
        Some \<lparr>source_url = source_url g, channel_name = channel_name g,
              stream_url = stream_url g, attributes = attributes g,
              childlist = playable_childlist\<rparr>
      else
        (case playable_childlist of
           first_playable # remaining \<Rightarrow>
             Some \<lparr>source_url = e_source_url first_playable, channel_name = channel_name g,
                   stream_url = e_stream_url first_playable,
                   attributes = e_attributes first_playable,
                   childlist = remaining\<rparr>
         | [] \<Rightarrow> None))"

text \<open>
  The loop variables of \<open>recheck_arranged_channels\<close> and the content of the output file
  (\<open>None\<close> while the file does not exist).
\<close>

record recheck_state =
  final_channels :: "(pystr \<times> channel_group) list"
  checked_groups :: nat
  output_file :: "(pystr \<times> channel_group) list option"

definition recheck_step ::
  "network \<Rightarrow> nat \<Rightarrow> recheck_state \<Rightarrow> pystr \<times> channel_group \<Rightarrow> recheck_state" where
  "recheck_step head n_groups st item =
     (case recheck_group head (fst item) (snd item) of
        None \<Rightarrow> st
      | Some g' \<Rightarrow>
          (let final = AList.update (fst item) g' (final_channels st);
               checked = checked_groups st + 1
           in \<lparr>final_channels = final, checked_groups = checked,
               output_file = (if checked mod 10 = 0 \<or> checked = n_groups then Some final
                              else output_file st)\<rparr>))"

definition recheck_arranged_channels ::
  "network \<Rightarrow> (pystr \<times> channel_group) list \<Rightarrow> (pystr \<times> channel_group) list option
     \<Rightarrow> recheck_state" where
  "recheck_arranged_channels head channels_in file0 =
     foldl (recheck_step head (length channels_in))
       \<lparr>final_channels = [], checked_groups = 0, output_file = file0\<rparr> channels_in"

text \<open>The reachable members of a childlist, in the order of the childlist.\<close>

definition reachable_children :: "network \<Rightarrow> pystr \<Rightarrow> entry list \<Rightarrow> entry list" where
  "reachable_children head name cs =
     map snd (filter (\<lambda>(i, c). child_playable head name i c) (zip [0..<length cs] cs))"

subsection \<open>Example inputs\<close>

definition example_channel :: "string \<Rightarrow> string \<Rightarrow> string \<Rightarrow> channel_info" where
  "example_channel source name url =
     \<lparr>ci_source_url = Some (str source), ci_channel_name = Some (str name),
      ci_stream_url = Some (str url), ci_attributes = Some []\<rparr>"

definition example_entry :: "string \<Rightarrow> string \<Rightarrow> entry" where
  "example_entry source url =
     \<lparr>e_source_url = Some (str source), e_stream_url = Some (str url), e_attributes = []\<rparr>"

definition example_group :: "string \<Rightarrow> string \<Rightarrow> string \<Rightarrow> entry list \<Rightarrow> channel_group" where
  "example_group source name url children =
     \<lparr>source_url = Some (str source), channel_name = str name, stream_url = Some (str url),
      attributes = [], childlist = children\<rparr>"

definition ex_priority :: "(pystr \<times> channel_info) list" where
  "ex_priority =
     [(str ''m_0'', example_channel ''m'' ''A'' ''http://1.2.3.4/a''),
      (str ''m_1'', example_channel ''m'' ''A'' ''https://[2001:db8::1]/a''),
      (str ''m_2'', example_channel ''m'' ''A'' ''https://1.2.3.4/a'')]"


definition ex_duplicate :: "(pystr \<times> channel_info) list" where
  "ex_duplicate =
     [(str ''m_0'', example_channel ''m'' ''A'' ''http://1.2.3.4/a''),
      (str ''m_1'', example_channel ''m'' ''A'' ''http://1.2.3.4/a'')]"

definition ex_shared_url :: "(pystr \<times> channel_info) list" where
  "ex_shared_url =
     [(str ''m_0'', example_channel ''m'' ''A'' ''http://h/a''),
      (str ''m_1'', example_channel ''m'' ''A'' ''https://h/a''),
      (str ''n_0'', example_channel ''n'' ''A'' ''https://h/a'')]"

definition ex_head :: network where
  "ex_head name i u =
     (if u = str ''http://b/'' \<or> u = str ''http://c/'' then Status 200
      else if u = str ''http://a/'' then Status 404 else Timeout)"

definition ex_promotion :: "(pystr \<times> channel_group) list" where
  "ex_promotion =
     [(str ''N'', example_group ''m'' ''N'' ''http://p/''
         [example_entry ''a'' ''http://a/'', example_entry ''b'' ''http://b/'',
          example_entry ''c'' ''http://c/''])]"

definition ex_two_groups :: "(pystr \<times> channel_group) list" where
  "ex_two_groups =
     [(str ''A'', example_group ''m'' ''A'' ''http://b/'' []),
      (str ''D'', example_group ''m'' ''D'' ''http://p/'' [example_entry ''a'' ''http://a/''])]"

section \<open>Invariants and notions of the specification\<close>


text \<open>The substring after the last comma of a line (the whole line when it has no comma).\<close>

definition after_last_comma :: "pystr \<Rightarrow> pystr" where
  "after_last_comma s = rev (takeWhile (\<lambda>c. c \<noteq> 44) (rev s))"

text \<open>
  The line holds a token \<open>key="v"\<close> right after the prefix \<open>pre\<close>, with no double quote
  inside \<open>v\<close>.
\<close>

definition token_at :: "pystr \<Rightarrow> pystr \<Rightarrow> pystr \<Rightarrow> pystr \<Rightarrow> bool" where
  "token_at key v line pre =
     (\<exists>post. line = pre @ key @ [61, 34] @ v @ [34] @ post \<and> 34 \<notin> set v)"




section \<open>Properties of the parser\<close>

subsection \<open>The channel name of a metadata line\<close>

lemma takeWhile_stop: "d \<notin> set v \<Longrightarrow> takeWhile (\<lambda>c. c \<noteq> d) (v @ d # post) = v"
  by (induction v) auto


lemma after_last_comma_Cons_in:
  "44 \<in> set cs \<Longrightarrow> after_last_comma (c # cs) = after_last_comma cs"
  by (simp add: after_last_comma_def takeWhile_append1)

lemma after_last_comma_Cons_notin:
  "44 \<notin> set cs \<Longrightarrow> after_last_comma (44 # cs) = cs"
proof -
  assume h: "44 \<notin> set cs"
  have "takeWhile (\<lambda>c. c \<noteq> 44) (rev cs @ [44]) = rev cs @ takeWhile (\<lambda>c. c \<noteq> 44) [44]"
    by (rule takeWhile_append2) (use h in auto)
  then show ?thesis by (simp add: after_last_comma_def)
qed

lemma re_search_name_eq:
  "re_search_name s =
     (if 44 \<in> set s \<and> after_last_comma s \<noteq> [] then Some (after_last_comma s) else None)"
proof (induction s)
  case Nil
  show ?case by simp
next
  case (Cons c cs)
  show ?case
  proof (cases "44 \<in> set cs")
    case True
    then show ?thesis using Cons by (simp add: after_last_comma_Cons_in)
  next
    case False
    then show ?thesis using Cons by (auto simp: after_last_comma_Cons_notin)
  qed
qed

text \<open>
  Claim C6, as amended. The channel name of a metadata line is the substring after the last
  comma, trimmed, when the line has a comma and that substring is not empty; in every other
  case (no comma, or a comma at the very end of the line) it is the sentinel of the source,
  the four characters U+672A U+77E5 U+9891 U+9053, and not \<open>Unknown\<close>.
\<close>

theorem extract_channel_name_last_comma:
  "extract_channel_name extinf_line =
     (if 44 \<in> set extinf_line \<and> after_last_comma extinf_line \<noteq> []
      then strip (after_last_comma extinf_line) else unknown_channel)"
  by (simp add: extract_channel_name_def re_search_name_eq)

text \<open>
  Claim C6 as stated fails: a line without a comma is not named \<open>Unknown\<close>, and a line
  that ends in a comma is not named by the (empty) substring after its last comma.
\<close>

theorem extract_channel_name_not_Unknown:
  "extract_channel_name (str ''#EXTINF:-1 CCTV1'') \<noteq> str ''Unknown'' \<and>
   extract_channel_name (str ''#EXTINF:-1 CCTV1'') = [26410, 30693, 39057, 36947] \<and>
   44 \<in> set (str ''#EXTINF:-1,'') \<and>
   extract_channel_name (str ''#EXTINF:-1,'') \<noteq> strip (after_last_comma (str ''#EXTINF:-1,''))"
  by (simp add: extract_channel_name_def unknown_channel_def str_def strip_def after_last_comma_def)

subsection \<open>The attributes of a metadata line\<close>


lemma match_attr_here_Some:
  "match_attr_here key s = Some v \<longleftrightarrow> token_at key v s []"
proof
  assume h: "match_attr_here key s = Some v"
  define lit where "lit = key @ [61, 34]"
  define rest where "rest = drop (length lit) s"
  from h have sw: "take (length lit) s = lit" and q: "34 \<in> set rest"
    and v: "v = takeWhile (\<lambda>c. c \<noteq> 34) rest"
    by (auto simp: match_attr_here_def startswith_def Let_def lit_def rest_def split: if_splits)
  from q have ne: "dropWhile (\<lambda>c. c \<noteq> 34) rest \<noteq> []" by auto
  then have "hd (dropWhile (\<lambda>c. c \<noteq> 34) rest) = 34"
    using hd_dropWhile[of "\<lambda>c. c \<noteq> 34" rest] by auto
  with ne obtain post where d: "dropWhile (\<lambda>c. c \<noteq> 34) rest = 34 # post"
    by (cases "dropWhile (\<lambda>c. c \<noteq> 34) rest") auto
  have "rest = v @ 34 # post"
    using takeWhile_dropWhile_id[of "\<lambda>c. c \<noteq> 34" rest] by (simp add: v d)
  moreover have "s = take (length lit) s @ rest" by (simp add: rest_def)
  ultimately have "s = lit @ v @ 34 # post" using sw by metis
  moreover have "34 \<notin> set v" unfolding v by (auto dest: set_takeWhileD)
  ultimately show "token_at key v s []" by (auto simp: token_at_def lit_def)
next
  assume "token_at key v s []"
  then obtain post where s: "s = key @ [61, 34] @ v @ [34] @ post" and nv: "34 \<notin> set v"
    by (auto simp: token_at_def)
  have "takeWhile (\<lambda>c. c \<noteq> 34) (v @ 34 # post) = v"
    using nv by (rule takeWhile_stop)
  then show "match_attr_here key s = Some v"
    using s by (simp add: match_attr_here_def startswith_def Let_def)
qed


lemma match_attr_here_Nil: "match_attr_here key [] = None"
  by (simp add: match_attr_here_def startswith_def)

lemma token_at_Cons: "token_at key v (c # cs) (c' # pre) \<longleftrightarrow> c' = c \<and> token_at key v cs pre"
  by (auto simp: token_at_def)

lemma token_at_Nil: "\<not> token_at key v [] pre"
  by (auto simp: token_at_def)

lemma re_search_attr_None:
  "re_search_attr key s = None \<longleftrightarrow> (\<forall>pre v. \<not> token_at key v s pre)"
proof (induction s)
  case Nil
  show ?case by (simp add: token_at_Nil)
next
  case (Cons c cs)
  show ?case
  proof
    assume h: "re_search_attr key (c # cs) = None"
    then have m: "match_attr_here key (c # cs) = None" and r: "re_search_attr key cs = None"
      by (auto split: option.splits)
    show "\<forall>pre v. \<not> token_at key v (c # cs) pre"
    proof (intro allI)
      fix pre v
      show "\<not> token_at key v (c # cs) pre"
      proof (cases pre)
        case Nil
        then show ?thesis using m match_attr_here_Some[of key "c # cs" v] by simp
      next
        case (Cons c' pre')
        then show ?thesis using r Cons.IH by (simp add: token_at_Cons)
      qed
    qed
  next
    assume h: "\<forall>pre v. \<not> token_at key v (c # cs) pre"
    have "match_attr_here key (c # cs) = None"
    proof (cases "match_attr_here key (c # cs)")
      case (Some v)
      then show ?thesis using h match_attr_here_Some[of key "c # cs" v] by blast
    qed simp
    moreover have "\<forall>pre v. \<not> token_at key v cs pre"
      using h token_at_Cons[of key _ c cs c] by blast
    ultimately show "re_search_attr key (c # cs) = None" using Cons.IH by simp
  qed
qed

lemma re_search_attr_Some:
  "re_search_attr key s = Some v \<Longrightarrow>
     \<exists>pre. token_at key v s pre \<and> (\<forall>pre' v'. token_at key v' s pre' \<longrightarrow>
        length pre \<le> length pre' \<and> (length pre' = length pre \<longrightarrow> v' = v))"
proof (induction s)
  case Nil
  then show ?case by simp
next
  case (Cons c cs)
  show ?case
  proof (cases "match_attr_here key (c # cs)")
    case (Some w)
    with Cons.prems have wv: "w = v" by simp
    with Some have t: "token_at key v (c # cs) []" by (simp add: match_attr_here_Some)
    have u: "v' = v" if "token_at key v' (c # cs) []" for v'
    proof -
      from that have "match_attr_here key (c # cs) = Some v'" by (simp add: match_attr_here_Some)
      with Some wv show ?thesis by simp
    qed
    have "\<forall>pre' v'. token_at key v' (c # cs) pre' \<longrightarrow>
            length ([]::pystr) \<le> length pre' \<and> (length pre' = length ([]::pystr) \<longrightarrow> v' = v)"
      using u by simp
    with t show ?thesis by (rule_tac x = "[]" in exI) (rule conjI)
  next
    case None
    with Cons.prems have "re_search_attr key cs = Some v" by simp
    from Cons.IH[OF this] obtain pre where p: "token_at key v cs pre"
      and l: "\<And>pre' v'. token_at key v' cs pre' \<Longrightarrow>
               length pre \<le> length pre' \<and> (length pre' = length pre \<longrightarrow> v' = v)" by blast
    have n: "\<not> token_at key v' (c # cs) []" for v'
      using None match_attr_here_Some[of key "c # cs" v'] by simp
    have "\<forall>pre' v'. token_at key v' (c # cs) pre' \<longrightarrow>
            length (c # pre) \<le> length pre' \<and> (length pre' = length (c # pre) \<longrightarrow> v' = v)"
    proof (intro allI impI)
      fix pre' v'
      assume a: "token_at key v' (c # cs) pre'"
      show "length (c # pre) \<le> length pre' \<and> (length pre' = length (c # pre) \<longrightarrow> v' = v)"
      proof (cases pre')
        case Nil
        then show ?thesis using a n by simp
      next
        case (Cons c' q)
        with a have "token_at key v' cs q" by (simp add: token_at_Cons)
        from l[OF this] show ?thesis using Cons by simp
      qed
    qed
    moreover have "token_at key v (c # cs) (c # pre)" using p by (simp add: token_at_Cons)
    ultimately show ?thesis by (rule_tac x = "c # pre" in exI) (rule conjI)
  qed
qed


lemma fold_update_map_of:
  "map_of (fold (\<lambda>key a. case f key of Some v \<Rightarrow> AList.update key v a | None \<Rightarrow> a) ks acc) k =
     (if k \<in> set ks then (case f k of Some v \<Rightarrow> Some v | None \<Rightarrow> map_of acc k) else map_of acc k)"
  by (induction ks arbitrary: acc) (auto simp: update_conv' split: option.splits)

lemma extract_attributes_map_of:
  "map_of (extract_attributes line) k = (if k \<in> set patterns then re_search_attr k line else None)"
  unfolding extract_attributes_def by (simp add: fold_update_map_of split: option.splits)

text \<open>
  Claim C9, as amended. The attributes of a metadata line have keys among the four of
  \<open>patterns\<close> only; a stored value is the value of the leftmost \<open>key="value"\<close> token of
  that key; a key of \<open>patterns\<close> is left out exactly when the line has no such token. The
  stored value can be the empty string.
\<close>

theorem extract_attributes_tokens:
  "fst ` set (extract_attributes line) \<subseteq> set patterns \<and>
   (\<forall>key v. map_of (extract_attributes line) key = Some v \<longrightarrow>
      key \<in> set patterns \<and>
      (\<exists>pre. token_at key v line pre \<and>
         (\<forall>pre' v'. token_at key v' line pre' \<longrightarrow> length pre \<le> length pre'))) \<and>
   (\<forall>key \<in> set patterns.
      (map_of (extract_attributes line) key = None) = (\<forall>pre v. \<not> token_at key v line pre))"
proof (intro conjI allI impI ballI)
  show "fst ` set (extract_attributes line) \<subseteq> set patterns"
  proof
    fix k assume "k \<in> fst ` set (extract_attributes line)"
    then have "k \<in> dom (map_of (extract_attributes line))" by (simp add: dom_map_of_conv_image_fst)
    then show "k \<in> set patterns" by (auto simp: extract_attributes_map_of split: if_splits)
  qed
next
  fix key v assume h: "map_of (extract_attributes line) key = Some v"
  then show "key \<in> set patterns" by (simp add: extract_attributes_map_of split: if_splits)
  from h have "re_search_attr key line = Some v"
    by (simp add: extract_attributes_map_of split: if_splits)
  from re_search_attr_Some[OF this]
  show "\<exists>pre. token_at key v line pre \<and>
         (\<forall>pre' v'. token_at key v' line pre' \<longrightarrow> length pre \<le> length pre')" by blast
next
  fix key assume "key \<in> set patterns"
  then show "(map_of (extract_attributes line) key = None) = (\<forall>pre v. \<not> token_at key v line pre)"
    by (simp add: extract_attributes_map_of re_search_attr_None)
qed

lemma eval_attrs_1:
  \<open>extract_attributes (str ''#EXTINF:-1 tvg-id="" group-title="News",X'') =
     [(str ''tvg-id'', []), (str ''group-title'', str ''News'')]\<close>
  by (simp add: extract_attributes_def patterns_def str_def match_attr_here_def startswith_def)

theorem extract_attributes_tokens_witness:
  \<open>map_of (extract_attributes (str ''#EXTINF:-1 tvg-id="" group-title="News",X'')) (str ''group-title'')
      = Some (str ''News'') \<and>
    (\<exists>pre. token_at (str ''group-title'') (str ''News'')
             (str ''#EXTINF:-1 tvg-id="" group-title="News",X'') pre) \<and>
    str ''tvg-name'' \<in> set patterns \<and>
    (\<forall>pre v. \<not> token_at (str ''tvg-name'') v (str ''#EXTINF:-1 tvg-id="" group-title="News",X'') pre)\<close>
proof -
  let ?L = \<open>str ''#EXTINF:-1 tvg-id="" group-title="News",X''\<close>
  have a: "map_of (extract_attributes ?L) (str ''group-title'') = Some (str ''News'')"
    by (simp add: eval_attrs_1) (simp add: str_def)
  have b: "str ''tvg-name'' \<in> set patterns" by (simp add: patterns_def)
  have c: "map_of (extract_attributes ?L) (str ''tvg-name'') = None"
    by (simp add: eval_attrs_1) (simp add: str_def)
  from extract_attributes_tokens[of ?L] a b c show ?thesis by blast
qed

text \<open>
  Claim C9 as stated fails: the token \<open>tvg-id=""\<close> stores the key with the empty string.
\<close>

theorem extract_attributes_empty_value:
  \<open>map_of (extract_attributes (str ''#EXTINF:-1 tvg-id="",X'')) (str ''tvg-id'') = Some []\<close>
  by (simp add: extract_attributes_def patterns_def str_def match_attr_here_def startswith_def)

subsection \<open>The pairing of metadata and endpoint lines\<close>

























section \<open>Properties of the grouping\<close>

subsection \<open>The grouping loop\<close>

lemma partition_of_Cons:
  "partition_of n (item # cs) =
     (if name_of (snd item) = n then to_entry (snd item) # partition_of n cs else partition_of n cs)"
  by (simp add: partition_of_def)

lemma group_channel_map_of:
  "map_of (group_channel grouped item) n =
     (if name_of (snd item) = n
      then Some (case map_of grouped n of
                   None \<Rightarrow> \<lparr>source_url = e_source_url (to_entry (snd item)), channel_name = n,
                       stream_url = e_stream_url (to_entry (snd item)),
                       attributes = e_attributes (to_entry (snd item)), childlist = []\<rparr>
                 | Some g \<Rightarrow> g\<lparr>childlist := childlist g @ [to_entry (snd item)]\<rparr>)
      else map_of grouped n)"
  by (simp add: group_channel_def Let_def update_conv' split: option.splits)

lemma group_fold_map_of:
  "map_of (foldl group_channel grouped cs) n =
     (case map_of grouped n of
        Some g \<Rightarrow> Some (g\<lparr>childlist := childlist g @ partition_of n cs\<rparr>)
      | None \<Rightarrow>
          (case partition_of n cs of
             [] \<Rightarrow> None
           | e # es \<Rightarrow> Some \<lparr>source_url = e_source_url e, channel_name = n,
                stream_url = e_stream_url e, attributes = e_attributes e, childlist = es\<rparr>))"
proof (induction cs arbitrary: grouped)
  case Nil
  show ?case by (simp add: partition_of_def split: option.splits)
next
  case (Cons item cs)
  have "map_of (foldl group_channel grouped (item # cs)) n
      = map_of (foldl group_channel (group_channel grouped item) cs) n" by simp
  also have "\<dots> = (case map_of (group_channel grouped item) n of
        Some g \<Rightarrow> Some (g\<lparr>childlist := childlist g @ partition_of n cs\<rparr>)
      | None \<Rightarrow>
          (case partition_of n cs of
             [] \<Rightarrow> None
           | e # es \<Rightarrow> Some \<lparr>source_url = e_source_url e, channel_name = n,
                stream_url = e_stream_url e, attributes = e_attributes e, childlist = es\<rparr>))"
    by (rule Cons.IH)
  also have "\<dots> = (case map_of grouped n of
        Some g \<Rightarrow> Some (g\<lparr>childlist := childlist g @ partition_of n (item # cs)\<rparr>)
      | None \<Rightarrow>
          (case partition_of n (item # cs) of
             [] \<Rightarrow> None
           | e # es \<Rightarrow> Some \<lparr>source_url = e_source_url e, channel_name = n,
                stream_url = e_stream_url e, attributes = e_attributes e, childlist = es\<rparr>))"
    by (simp add: group_channel_map_of partition_of_Cons split: option.splits)
  finally show ?case .
qed

lemma group_channel_distinct:
  "distinct (map fst grouped) \<Longrightarrow> distinct (map fst (group_channel grouped item))"
  by (simp add: group_channel_def Let_def distinct_update split: option.splits)

lemma group_fold_distinct:
  "distinct (map fst grouped) \<Longrightarrow> distinct (map fst (foldl group_channel grouped cs))"
  by (induction cs arbitrary: grouped) (simp_all add: group_channel_distinct)

subsection \<open>The priority pass\<close>

lemma scan_Some:
  "scan P i es = Inr (Some (k, e)) \<Longrightarrow>
     i \<le> k \<and> k - i < length es \<and> es ! (k - i) = e \<and> matches P e \<and>
     (\<forall>j<k - i. \<not> matches P (es ! j)) \<and> find (matches P) es = Some e"
proof (induction es arbitrary: i)
  case Nil
  then show ?case by simp
next
  case (Cons x es)
  from Cons.prems obtain u where u: "e_stream_url x = Some u"
    by (cases "e_stream_url x") simp_all
  show ?case
  proof (cases "P u")
    case True
    with u Cons.prems have "k = i" "e = x" by simp_all
    with True u show ?thesis by (simp add: matches_def)
  next
    case False
    with u Cons.prems have s: "scan P (Suc i) es = Inr (Some (k, e))" by simp
    from Cons.IH[OF s] have ih: "Suc i \<le> k" "k - Suc i < length es" "es ! (k - Suc i) = e"
      "matches P e" "\<forall>j<k - Suc i. \<not> matches P (es ! j)" "find (matches P) es = Some e"
      by simp_all
    have nx: "\<not> matches P x" using u False by (simp add: matches_def)
    from ih(1) have ki: "k - i = Suc (k - Suc i)" by simp
    have "\<forall>j<k - i. \<not> matches P ((x # es) ! j)"
    proof (intro allI impI)
      fix j assume "j < k - i"
      then show "\<not> matches P ((x # es) ! j)" using nx ih(5) ki by (cases j) simp_all
    qed
    then show ?thesis using ih nx ki by simp
  qed
qed

lemma scan_None: "scan P i es = Inr None \<Longrightarrow> \<forall>x\<in>set es. \<not> matches P x"
proof (induction es arbitrary: i)
  case Nil
  show ?case by simp
next
  case (Cons x es)
  from Cons.prems obtain u where u: "e_stream_url x = Some u"
    by (cases "e_stream_url x") simp_all
  with Cons.prems have np: "\<not> P u" and s: "scan P (Suc i) es = Inr None"
    by (simp_all split: if_splits)
  from Cons.IH[OF s] u np show ?case by (simp add: matches_def)
qed

lemma select_best_Some:
  "select_best Ps es = Inr (Some (k, e)) \<Longrightarrow>
     \<exists>c<length Ps. find (matches (Ps ! c)) es = Some e \<and>
        (\<forall>c'<c. \<forall>x\<in>set es. \<not> matches (Ps ! c') x) \<and>
        k < length es \<and> es ! k = e \<and> matches (Ps ! c) e \<and>
        (\<forall>j<k. \<not> matches (Ps ! c) (es ! j))"
proof (induction Ps)
  case Nil
  then show ?case by simp
next
  case (Cons P Ps)
  show ?case
  proof (cases "scan P 0 es")
    case (Inl err)
    with Cons.prems show ?thesis by simp
  next
    case (Inr r)
    show ?thesis
    proof (cases r)
      case None
      with Inr Cons.prems have "select_best Ps es = Inr (Some (k, e))" by simp
      from Cons.IH[OF this] obtain c where c: "c < length Ps"
        "find (matches (Ps ! c)) es = Some e"
        "\<forall>c'<c. \<forall>x\<in>set es. \<not> matches (Ps ! c') x"
        "k < length es" "es ! k = e" "matches (Ps ! c) e" "\<forall>j<k. \<not> matches (Ps ! c) (es ! j)"
        by blast
      from Inr None have n: "\<forall>x\<in>set es. \<not> matches P x" by (simp add: scan_None)
      have "\<forall>c'<Suc c. \<forall>x\<in>set es. \<not> matches ((P # Ps) ! c') x"
      proof (intro allI impI)
        fix c' assume "c' < Suc c"
        then show "\<forall>x\<in>set es. \<not> matches ((P # Ps) ! c') x" using n c(3) by (cases c') simp_all
      qed
      with c show ?thesis by (intro exI[of _ "Suc c"]) simp
    next
      case (Some best)
      with Inr Cons.prems have "scan P 0 es = Inr (Some (k, e))" by simp
      from scan_Some[OF this] show ?thesis by (intro exI[of _ 0]) simp
    qed
  qed
qed



lemma promote_outcome:
  assumes "promote g = Inr g'"
  shows "g' = g \<or>
     stream_url g' \<noteq> stream_url g \<and> as_entry g' \<in> set (childlist g) \<and>
     childlist g' = filter (\<lambda>x. e_stream_url x \<noteq> stream_url g') (childlist g @ [as_entry g])"
proof (cases "best_entry g")
  case (Inl err)
  with assms show ?thesis by (simp add: promote_def)
next
  case (Inr r)
  show ?thesis
  proof (cases r)
    case None
    with Inr assms show ?thesis by (simp add: promote_def)
  next
    case (Some best)
    obtain k e where best: "best = (k, e)" by (cases best)
    show ?thesis
    proof (cases k)
      case 0
      with Inr Some best assms show ?thesis by (simp add: promote_def)
    next
      case (Suc k')
      from Inr Some best have "select_best priority_classes (all_entries g) = Inr (Some (k, e))"
        by (simp add: best_entry_def)
      from select_best_Some[OF this] obtain c where
        k: "k < length (all_entries g)" "all_entries g ! k = e" and
        m: "matches (priority_classes ! c) e" and
        n: "\<forall>j<k. \<not> matches (priority_classes ! c) (all_entries g ! j)" by blast
      from k Suc have mem: "e \<in> set (childlist g)" by (auto simp: all_entries_def)
      from n Suc have "\<not> matches (priority_classes ! c) (as_entry g)"
        by (auto simp: all_entries_def)
      with m have ne: "e_stream_url e \<noteq> stream_url g"
        by (auto simp: matches_def as_entry_def split: option.splits)
      have g': "g' = g\<lparr>source_url := e_source_url e, stream_url := e_stream_url e,
            attributes := e_attributes e,
            childlist := filter (\<lambda>entry. e_stream_url entry \<noteq> e_stream_url e)
                           (childlist g @ [as_entry g])\<rparr>"
        using Inr Some best Suc assms by (simp add: promote_def)
      have "as_entry g' = e" by (simp add: g' as_entry_def)
      with g' ne mem show ?thesis by simp
    qed
  qed
qed

lemma promote_all_mem:
  "promote_all gs = Inr out \<Longrightarrow> (n, g') \<in> set out \<Longrightarrow>
     \<exists>g. (n, g) \<in> set gs \<and> promote g = Inr g'"
proof (induction gs arbitrary: out)
  case Nil
  then show ?case by simp
next
  case (Cons p gs)
  obtain m g0 where p: "p = (m, g0)" by (cases p)
  from Cons.prems(1) p obtain g1 gs' where g1: "promote g0 = Inr g1"
    and gs': "promote_all gs = Inr gs'" and out: "out = (m, g1) # gs'"
    by (auto split: sum.splits)
  from Cons.prems(2) out consider "(n, g') = (m, g1)" | "(n, g') \<in> set gs'" by auto
  then show ?case
  proof cases
    case 1
    with g1 p show ?thesis by auto
  next
    case 2
    from Cons.IH[OF gs' 2] show ?thesis by auto
  qed
qed

lemma arrange_group:
  assumes "arrange_channels cs = Inr out" and "(n, g') \<in> set out"
  shows "\<exists>g. all_entries g = partition_of n cs \<and> promote g = Inr g'"
proof -
  from promote_all_mem[OF assms[unfolded arrange_channels_def]]
  obtain g where mem: "(n, g) \<in> set (foldl group_channel [] cs)" and pr: "promote g = Inr g'"
    by blast
  have "distinct (map fst (foldl group_channel [] cs))" by (rule group_fold_distinct) simp
  with mem have "map_of (foldl group_channel [] cs) n = Some g" by simp
  then have "all_entries g = partition_of n cs"
    by (simp add: group_fold_map_of all_entries_def as_entry_def split: list.splits) auto
  with pr show ?thesis by blast
qed

lemma arrange_outcome:
  assumes "arrange_channels cs = Inr out" and "(n, g) \<in> set out"
    and "partition_of n cs = first # rest"
  shows "as_entry g = first \<and> childlist g = rest \<or>
     stream_url g \<noteq> e_stream_url first \<and> as_entry g \<in> set rest \<and>
     childlist g = filter (\<lambda>x. e_stream_url x \<noteq> stream_url g) (rest @ [first])"
proof -
  from arrange_group[OF assms(1,2)] obtain g0 where
    a: "all_entries g0 = partition_of n cs" and p: "promote g0 = Inr g" by blast
  from a assms(3) have f: "as_entry g0 = first" and r: "childlist g0 = rest"
    by (simp_all add: all_entries_def)
  have s: "stream_url g0 = e_stream_url first" using f by (auto simp: as_entry_def)
  from promote_outcome[OF p] show ?thesis using f r s by auto
qed


lemmas eval_arrange =
  arrange_channels_def example_channel_def example_entry_def example_group_def
  group_channel_def name_of_def to_entry_def promote_def best_entry_def priority_classes_def
  all_entries_def as_entry_def class1_def class2_def class3_def class4_def startswith_def
  partition_of_def matches_def str_def Let_def

lemma eval_priority:
  "arrange_channels ex_priority =
     Inr [(str ''A'', example_group ''m'' ''A'' ''https://1.2.3.4/a''
            [example_entry ''m'' ''https://[2001:db8::1]/a'',
             example_entry ''m'' ''http://1.2.3.4/a''])]"
  by (simp add: ex_priority_def eval_arrange)

lemma eval_priority_partition:
  "partition_of (str ''A'') ex_priority =
     [example_entry ''m'' ''http://1.2.3.4/a'', example_entry ''m'' ''https://[2001:db8::1]/a'',
      example_entry ''m'' ''https://1.2.3.4/a'']"
  by (simp add: ex_priority_def eval_arrange)


lemma eval_duplicate:
  "arrange_channels ex_duplicate =
     Inr [(str ''A'', example_group ''m'' ''A'' ''http://1.2.3.4/a''
            [example_entry ''m'' ''http://1.2.3.4/a''])]"
  by (simp add: ex_duplicate_def eval_arrange)

lemma eval_shared_url:
  "arrange_channels ex_shared_url =
     Inr [(str ''A'', example_group ''m'' ''A'' ''https://h/a'' [example_entry ''m'' ''http://h/a''])]"
  by (simp add: ex_shared_url_def eval_arrange)

lemma eval_shared_url_partition:
  "partition_of (str ''A'') ex_shared_url =
     [example_entry ''m'' ''http://h/a'', example_entry ''m'' ''https://h/a'',
      example_entry ''n'' ''https://h/a'']"
  by (simp add: ex_shared_url_def eval_arrange)





text \<open>
  Claim C2, as amended. When the first-seen member stays primary the childlist is the other
  members in first-seen order. When another member is promoted, the childlist is the other
  members in first-seen order followed by the demoted first-seen member at the tail, without
  every record whose \<open>stream_url\<close> is the promoted one.
\<close>

theorem childlist_after_selection:
  assumes "arrange_channels cs = Inr out" and "(n, g) \<in> set out"
    and "partition_of n cs = first # rest"
  shows "childlist g =
     (if as_entry g = first then rest
      else filter (\<lambda>x. e_stream_url x \<noteq> stream_url g) (rest @ [first]))"
proof -
  from arrange_outcome[OF assms] show ?thesis
    by (auto simp: as_entry_def)
qed

theorem childlist_after_selection_witness:
  "childlist (example_group ''m'' ''A'' ''https://1.2.3.4/a''
       [example_entry ''m'' ''https://[2001:db8::1]/a'', example_entry ''m'' ''http://1.2.3.4/a''])
     = filter (\<lambda>x. e_stream_url x \<noteq> Some (str ''https://1.2.3.4/a''))
         ([example_entry ''m'' ''https://[2001:db8::1]/a'', example_entry ''m'' ''https://1.2.3.4/a'']
          @ [example_entry ''m'' ''http://1.2.3.4/a''])"
proof -
  have "(str ''A'', example_group ''m'' ''A'' ''https://1.2.3.4/a''
       [example_entry ''m'' ''https://[2001:db8::1]/a'', example_entry ''m'' ''http://1.2.3.4/a''])
      \<in> set [(str ''A'', example_group ''m'' ''A'' ''https://1.2.3.4/a''
       [example_entry ''m'' ''https://[2001:db8::1]/a'', example_entry ''m'' ''http://1.2.3.4/a''])]"
    by simp
  from childlist_after_selection[OF eval_priority this eval_priority_partition]
  show ?thesis by (simp add: example_group_def example_entry_def as_entry_def str_def)
qed

text \<open>
  Claim C2 as stated fails: for http-ipv4, https-ipv6, https-ipv4 the childlist is
  https-ipv6, http-ipv4, not the first-seen order http-ipv4, https-ipv6.
\<close>

theorem childlist_not_original_order:
  "arrange_channels ex_priority =
     Inr [(str ''A'', example_group ''m'' ''A'' ''https://1.2.3.4/a''
            [example_entry ''m'' ''https://[2001:db8::1]/a'',
             example_entry ''m'' ''http://1.2.3.4/a''])] \<and>
   remove1 (example_entry ''m'' ''https://1.2.3.4/a'') (partition_of (str ''A'') ex_priority) =
     [example_entry ''m'' ''http://1.2.3.4/a'', example_entry ''m'' ''https://[2001:db8::1]/a''] \<and>
   [example_entry ''m'' ''https://[2001:db8::1]/a'', example_entry ''m'' ''http://1.2.3.4/a''] \<noteq>
     [example_entry ''m'' ''http://1.2.3.4/a'', example_entry ''m'' ''https://[2001:db8::1]/a'']"
  by (simp add: eval_priority eval_priority_partition) (simp add: example_entry_def str_def)

text \<open>
  Claim C5, as amended. The primary record is not a member of the childlist of its group
  whenever a member was promoted, or the first-seen record of the name does not occur again
  among the later records of that name.
\<close>

theorem primary_not_in_childlist:
  assumes "arrange_channels cs = Inr out" and "(n, g) \<in> set out"
    and "partition_of n cs = first # rest"
    and "as_entry g \<noteq> first \<or> first \<notin> set rest"
  shows "as_entry g \<notin> set (childlist g)"
proof -
  from arrange_outcome[OF assms(1,2,3)] consider
    (kept) "as_entry g = first" "childlist g = rest"
  | (promoted) "childlist g = filter (\<lambda>x. e_stream_url x \<noteq> stream_url g) (rest @ [first])"
    by blast
  then show ?thesis
  proof cases
    case kept
    with assms(4) show ?thesis by simp
  next
    case promoted
    have "e_stream_url (as_entry g) = stream_url g" by (simp add: as_entry_def)
    with promoted show ?thesis by auto
  qed
qed

theorem primary_not_in_childlist_witness:
  "as_entry (example_group ''m'' ''A'' ''https://1.2.3.4/a''
       [example_entry ''m'' ''https://[2001:db8::1]/a'', example_entry ''m'' ''http://1.2.3.4/a''])
     \<notin> set (childlist (example_group ''m'' ''A'' ''https://1.2.3.4/a''
       [example_entry ''m'' ''https://[2001:db8::1]/a'', example_entry ''m'' ''http://1.2.3.4/a'']))"
proof -
  have m: "(str ''A'', example_group ''m'' ''A'' ''https://1.2.3.4/a''
       [example_entry ''m'' ''https://[2001:db8::1]/a'', example_entry ''m'' ''http://1.2.3.4/a''])
      \<in> set [(str ''A'', example_group ''m'' ''A'' ''https://1.2.3.4/a''
       [example_entry ''m'' ''https://[2001:db8::1]/a'', example_entry ''m'' ''http://1.2.3.4/a''])]"
    by simp
  have d: "as_entry (example_group ''m'' ''A'' ''https://1.2.3.4/a''
       [example_entry ''m'' ''https://[2001:db8::1]/a'', example_entry ''m'' ''http://1.2.3.4/a''])
      \<noteq> example_entry ''m'' ''http://1.2.3.4/a'' \<or>
      example_entry ''m'' ''http://1.2.3.4/a'' \<notin>
        set [example_entry ''m'' ''https://[2001:db8::1]/a'', example_entry ''m'' ''https://1.2.3.4/a'']"
    by (simp add: example_group_def example_entry_def as_entry_def str_def)
  from primary_not_in_childlist[OF eval_priority m eval_priority_partition d] show ?thesis .
qed

text \<open>
  Claim C5 as stated fails: two input entries with the same name, source, URL and attributes
  give a group whose childlist holds the primary record.
\<close>

theorem primary_duplicated_in_childlist:
  "arrange_channels ex_duplicate =
     Inr [(str ''A'', example_group ''m'' ''A'' ''http://1.2.3.4/a''
            [example_entry ''m'' ''http://1.2.3.4/a''])] \<and>
   as_entry (example_group ''m'' ''A'' ''http://1.2.3.4/a'' [example_entry ''m'' ''http://1.2.3.4/a''])
     \<in> set (childlist (example_group ''m'' ''A'' ''http://1.2.3.4/a''
            [example_entry ''m'' ''http://1.2.3.4/a'']))"
  by (simp add: eval_duplicate) (simp add: example_group_def example_entry_def as_entry_def)

text \<open>
  Claim C10. When a member other than the first-seen one is promoted, the childlist keeps
  exactly the records of the name whose \<open>stream_url\<close> differs from the promoted one: every
  record that shares the promoted URL is dropped, whatever its source.
\<close>

theorem promoted_url_removed:
  assumes "arrange_channels cs = Inr out" and "(n, g) \<in> set out"
    and "partition_of n cs = first # rest"
    and "as_entry g \<noteq> first"
  shows "as_entry g \<in> set rest \<and>
     childlist g = filter (\<lambda>x. e_stream_url x \<noteq> stream_url g) (rest @ [first]) \<and>
     set (childlist g) = {x \<in> set (first # rest). e_stream_url x \<noteq> stream_url g}"
proof -
  from arrange_outcome[OF assms(1,2,3)] assms(4) have
    m: "as_entry g \<in> set rest" and
    c: "childlist g = filter (\<lambda>x. e_stream_url x \<noteq> stream_url g) (rest @ [first])"
    by blast+
  from c have "set (childlist g) = {x \<in> set (first # rest). e_stream_url x \<noteq> stream_url g}"
    by auto
  with m c show ?thesis by simp
qed

text \<open>
  The record of source \<open>n\<close> shares the URL of the promoted record of source \<open>m\<close>: it is a
  different record, and it is in the group no more.
\<close>

theorem promoted_url_removed_witness:
  "example_entry ''n'' ''https://h/a'' \<in> set (partition_of (str ''A'') ex_shared_url) \<and>
   example_entry ''n'' ''https://h/a'' \<noteq>
     as_entry (example_group ''m'' ''A'' ''https://h/a'' [example_entry ''m'' ''http://h/a'']) \<and>
   example_entry ''n'' ''https://h/a'' \<notin>
     set (childlist (example_group ''m'' ''A'' ''https://h/a'' [example_entry ''m'' ''http://h/a''])) \<and>
   set (childlist (example_group ''m'' ''A'' ''https://h/a'' [example_entry ''m'' ''http://h/a'']))
     = {x \<in> set [example_entry ''m'' ''http://h/a'', example_entry ''m'' ''https://h/a'',
                 example_entry ''n'' ''https://h/a''].
        e_stream_url x \<noteq> stream_url (example_group ''m'' ''A'' ''https://h/a''
                                        [example_entry ''m'' ''http://h/a''])}"
proof -
  have m: "(str ''A'', example_group ''m'' ''A'' ''https://h/a'' [example_entry ''m'' ''http://h/a''])
      \<in> set [(str ''A'', example_group ''m'' ''A'' ''https://h/a'' [example_entry ''m'' ''http://h/a''])]"
    by simp
  have d: "as_entry (example_group ''m'' ''A'' ''https://h/a'' [example_entry ''m'' ''http://h/a''])
      \<noteq> example_entry ''m'' ''http://h/a''"
    by (simp add: example_group_def example_entry_def as_entry_def str_def)
  have e: "example_entry ''n'' ''https://h/a'' \<noteq>
     as_entry (example_group ''m'' ''A'' ''https://h/a'' [example_entry ''m'' ''http://h/a''])"
    by (simp add: example_group_def example_entry_def as_entry_def str_def)
  have f: "example_entry ''n'' ''https://h/a'' \<notin>
     set (childlist (example_group ''m'' ''A'' ''https://h/a'' [example_entry ''m'' ''http://h/a'']))"
    by (simp add: example_group_def example_entry_def str_def)
  have p: "example_entry ''n'' ''https://h/a'' \<in> set (partition_of (str ''A'') ex_shared_url)"
    by (simp add: eval_shared_url_partition)
  note s = promoted_url_removed[OF eval_shared_url m eval_shared_url_partition d,
      THEN conjunct2, THEN conjunct2]
  from p e f s show ?thesis by (intro conjI)
qed

section \<open>Properties of the re-check\<close>

lemma check_childlist_eq:
  "check_childlist head n i cs =
     map snd (filter (\<lambda>(j, c). child_playable head n j c) (zip [i..<i + length cs] cs))"
proof (induction cs arbitrary: i)
  case Nil
  show ?case by simp
next
  case (Cons c cs)
  have "[i..<i + length (c # cs)] = i # [Suc i..<Suc i + length cs]"
    by (subst upt_rec) simp
  then show ?case by (simp add: Cons.IH)
qed

lemma check_childlist_reachable:
  "check_childlist head n 0 cs = reachable_children head n cs"
  by (simp add: check_childlist_eq reachable_children_def)

lemma recheck_step_map_of:
  "map_of (final_channels (recheck_step head N st item)) n =
     (if fst item = n
      then (case recheck_group head n (snd item) of
              None \<Rightarrow> map_of (final_channels st) n
            | Some g' \<Rightarrow> Some g')
      else map_of (final_channels st) n)"
  by (simp add: recheck_step_def Let_def update_conv' split: option.splits)

lemma recheck_fold_map_of:
  "distinct (map fst cs) \<Longrightarrow>
   map_of (final_channels (foldl (recheck_step head N) st cs)) n =
     (case map_of cs n of
        None \<Rightarrow> map_of (final_channels st) n
      | Some g \<Rightarrow>
          (case recheck_group head n g of
             None \<Rightarrow> map_of (final_channels st) n
           | Some g' \<Rightarrow> Some g'))"
proof (induction cs arbitrary: st)
  case Nil
  show ?case by simp
next
  case (Cons item cs)
  obtain m g where item: "item = (m, g)" by (cases item)
  from Cons.prems item have d: "distinct (map fst cs)" and fresh: "m \<notin> fst ` set cs" by simp_all
  from fresh have none: "map_of cs m = None" by (simp add: map_of_eq_None_iff)
  have "map_of (final_channels (foldl (recheck_step head N) st (item # cs))) n
      = map_of (final_channels (foldl (recheck_step head N) (recheck_step head N st item) cs)) n"
    by simp
  also have "\<dots> = (case map_of cs n of
        None \<Rightarrow> map_of (final_channels (recheck_step head N st item)) n
      | Some g \<Rightarrow>
          (case recheck_group head n g of
             None \<Rightarrow> map_of (final_channels (recheck_step head N st item)) n
           | Some g' \<Rightarrow> Some g'))"
    by (rule Cons.IH[OF d])
  also have "\<dots> = (case map_of (item # cs) n of
        None \<Rightarrow> map_of (final_channels st) n
      | Some g \<Rightarrow>
          (case recheck_group head n g of
             None \<Rightarrow> map_of (final_channels st) n
           | Some g' \<Rightarrow> Some g'))"
    using none by (auto simp: recheck_step_map_of item split: option.splits)
  finally show ?case .
qed




lemma recheck_map_of:
  "distinct (map fst cs) \<Longrightarrow>
   map_of (final_channels (recheck_arranged_channels head cs f0)) n =
     (case map_of cs n of None \<Rightarrow> None | Some g \<Rightarrow> recheck_group head n g)"
  by (simp add: recheck_arranged_channels_def recheck_fold_map_of split: option.splits)


text \<open>
  Claim C3. A group whose primary does not probe as reachable and whose childlist has the
  reachable members \<open>p # ps\<close>, in the order of the childlist, is written with \<open>p\<close> as its
  primary (under the group's own name) and \<open>ps\<close> as its childlist.
\<close>

theorem first_reachable_child_promoted:
  assumes "distinct (map fst cs)" and "(n, g) \<in> set cs"
    and "\<not> main_playable head n g"
    and "reachable_children head n (childlist g) = p # ps"
  shows "map_of (final_channels (recheck_arranged_channels head cs f0)) n =
     Some \<lparr>source_url = e_source_url p, channel_name = channel_name g,
           stream_url = e_stream_url p, attributes = e_attributes p, childlist = ps\<rparr>"
proof -
  from assms(1,2) have "map_of cs n = Some g" by simp
  with assms show ?thesis
    by (simp add: recheck_map_of recheck_group_def check_childlist_reachable)
qed

lemmas eval_recheck =
  ex_head_def example_entry_def example_group_def main_playable_def child_playable_def
  reachable_children_def str_def

text \<open>
  The primary times out and the childlist is A (status 404), B (status 200), C (status 200):
  the group is written with primary B and childlist C.
\<close>

theorem first_reachable_child_promoted_witness:
  "map_of (final_channels (recheck_arranged_channels ex_head ex_promotion None)) (str ''N'') =
     Some (example_group ''b'' ''N'' ''http://b/'' [example_entry ''c'' ''http://c/''])"
proof -
  have d: "distinct (map fst ex_promotion)" by (simp add: ex_promotion_def)
  have m: "(str ''N'', example_group ''m'' ''N'' ''http://p/''
         [example_entry ''a'' ''http://a/'', example_entry ''b'' ''http://b/'',
          example_entry ''c'' ''http://c/'']) \<in> set ex_promotion"
    by (simp add: ex_promotion_def)
  have u: "\<not> main_playable ex_head (str ''N'') (example_group ''m'' ''N'' ''http://p/''
         [example_entry ''a'' ''http://a/'', example_entry ''b'' ''http://b/'',
          example_entry ''c'' ''http://c/''])"
    by (simp add: eval_recheck)
  have r: "reachable_children ex_head (str ''N'')
      (childlist (example_group ''m'' ''N'' ''http://p/''
         [example_entry ''a'' ''http://a/'', example_entry ''b'' ''http://b/'',
          example_entry ''c'' ''http://c/''])) =
      example_entry ''b'' ''http://b/'' # [example_entry ''c'' ''http://c/'']"
    by (simp add: eval_recheck upt_rec)
  from first_reachable_child_promoted[OF d m u r, of None]
  show ?thesis by (simp add: example_group_def example_entry_def)
qed



lemma eval_two_groups:
  "recheck_arranged_channels ex_head ex_two_groups None =
     \<lparr>final_channels = [(str ''A'', example_group ''m'' ''A'' ''http://b/'' [])],
      checked_groups = 1, output_file = None\<rparr>"
  by (simp add: recheck_arranged_channels_def recheck_step_def recheck_group_def ex_two_groups_def
      ex_head_def example_entry_def example_group_def main_playable_def child_playable_def
      str_def Let_def)


text \<open>All groups alive: the counter reaches the number of groups and the file is written last.\<close>

lemma recheck_fold_all_alive:
  "\<forall>item\<in>set cs. recheck_group head (fst item) (snd item) \<noteq> None \<Longrightarrow>
     checked_groups (foldl (recheck_step head N) st cs) = checked_groups st + length cs"
proof (induction cs arbitrary: st)
  case Nil
  show ?case by simp
next
  case (Cons item cs)
  then obtain g' where "recheck_group head (fst item) (snd item) = Some g'" by auto
  then have "checked_groups (recheck_step head N st item) = Suc (checked_groups st)"
    by (simp add: recheck_step_def Let_def)
  with Cons show ?case by simp
qed

lemma recheck_all_alive_file_complete:
  assumes "cs \<noteq> []" and "\<forall>item\<in>set cs. recheck_group head (fst item) (snd item) \<noteq> None"
  shows "output_file (recheck_arranged_channels head cs f0) =
     Some (final_channels (recheck_arranged_channels head cs f0))"
proof -
  from assms(1) obtain pre last where cs: "cs = pre @ [last]"
    by (cases cs rule: rev_cases) simp_all
  define st where "st = foldl (recheck_step head (length cs))
      \<lparr>final_channels = [], checked_groups = 0, output_file = f0\<rparr> pre"
  from assms(2) cs have "\<forall>item\<in>set pre. recheck_group head (fst item) (snd item) \<noteq> None" by simp
  from recheck_fold_all_alive[OF this] have c: "checked_groups st = length pre"
    by (simp add: st_def)
  from assms(2) cs obtain g' where g': "recheck_group head (fst last) (snd last) = Some g'" by auto
  have "recheck_arranged_channels head cs f0 = recheck_step head (length cs) st last"
    by (simp add: recheck_arranged_channels_def st_def cs)
  with g' c cs show ?thesis by (simp add: recheck_step_def Let_def)
qed

text \<open>
  Claim C8 on the source. Two groups, the second with no reachable member: the run ends
  with one group in the final mapping, the counter at 1 where the number of groups is 2, and
  the output file never written. With every group alive the last step does write the whole
  mapping (\<open>recheck_all_alive_file_complete\<close>).
\<close>

theorem recheck_final_write_missed:
  "final_channels (recheck_arranged_channels ex_head ex_two_groups None) =
     [(str ''A'', example_group ''m'' ''A'' ''http://b/'' [])] \<and>
   checked_groups (recheck_arranged_channels ex_head ex_two_groups None) = 1 \<and>
   length ex_two_groups = 2 \<and>
   output_file (recheck_arranged_channels ex_head ex_two_groups None) = None"
  by (simp add: eval_two_groups) (simp add: ex_two_groups_def)

end
